theory Spec2Isabelle
  imports Complex_Main "HOL-Library.Sublist" "HOL-Library.Log_Nat"
begin

section \<open>Elias gamma coding: the codec of \<^verbatim>\<open>gamma.py\<close>\<close>

text \<open>
  The module has three functions over Python's \<^verbatim>\<open>int\<close> and \<^verbatim>\<open>str\<close>:
  \<^verbatim>\<open>gamma_encode_number\<close>, \<^verbatim>\<open>gamma_encode_list\<close> and \<^verbatim>\<open>gamma_decode\<close>.
  Python integers are unbounded, so they are \<^typ>\<open>int\<close>. A \<^verbatim>\<open>str\<close> is a sequence of
  code points; the model is \<^typ>\<open>string\<close>, whose characters are the code points 0 to 255.
  Every \<^verbatim>\<open>raise\<close> is a value \<open>Inl\<close> of the result type.
\<close>

subsection \<open>Errors\<close>

datatype error = ValueError string

definition invalid_input :: error where
  "invalid_input = ValueError ''Gamma encoding is only defined for positive integers''"

definition prefix_cutoff :: error where
  "prefix_cutoff = ValueError ''Malformed gamma stream (prefix cutoff)''"

definition offset_cutoff :: error where
  "offset_cutoff = ValueError ''Malformed gamma stream (offset cutoff)''"

text \<open>
  The error of the builtin \<^verbatim>\<open>int(s, 2)\<close> on a string that is no base-2 literal. Python's
  message ends with the \<^verbatim>\<open>repr\<close> of the string, which is left out here.
\<close>

definition invalid_literal :: error where
  "invalid_literal = ValueError ''invalid literal for int() with base 2''"

subsection \<open>The builtins \<^verbatim>\<open>bin\<close> and \<^verbatim>\<open>int(s, 2)\<close>\<close>

text \<open>
  \<^verbatim>\<open>bin(n)\<close> is \<^verbatim>\<open>'0b'\<close> followed by the binary digits of \<open>n\<close>, most significant first and
  with no leading zero (\<^verbatim>\<open>'0b0'\<close> for zero), with a leading minus sign for a negative \<open>n\<close>.
\<close>

function bin_digits :: "int \<Rightarrow> string" where
  "bin_digits n =
     (if n < 2 then [if n = 1 then CHR ''1'' else CHR ''0'']
      else bin_digits (n div 2) @ [if n mod 2 = 1 then CHR ''1'' else CHR ''0''])"
  by pat_completeness auto
termination
  by (relation "measure nat") auto

declare bin_digits.simps [simp del]

definition bin :: "int \<Rightarrow> string" where
  "bin n = (if n < 0 then ''-0b'' @ bin_digits (- n) else ''0b'' @ bin_digits n)"

text \<open>
  \<^verbatim>\<open>int(s, 2)\<close> on a \<^verbatim>\<open>str\<close>: white space on both sides is skipped, then an optional sign,
  an optional \<^verbatim>\<open>0b\<close> or \<^verbatim>\<open>0B\<close> (which one underscore may follow), then at least one digit
  \<^verbatim>\<open>0\<close> or \<^verbatim>\<open>1\<close>, with single underscores allowed between digits. Anything else raises
  \<^verbatim>\<open>ValueError\<close>. White space is the C locale's (tab, line feed, vertical tab, form feed,
  carriage return, space) and, above ASCII, Unicode's (below 256: NEL and the no-break
  space).
\<close>

definition py_isspace :: "char \<Rightarrow> bool" where
  "py_isspace c \<longleftrightarrow>
     c = CHR 0x09 \<or> c = CHR 0x0A \<or> c = CHR 0x0B \<or> c = CHR 0x0C \<or> c = CHR 0x0D \<or>
     c = CHR 0x20 \<or> c = CHR 0x85 \<or> c = CHR 0xA0"

text \<open>
  The digit scan: \<open>us\<close> says that the character before was an underscore, \<open>acc\<close> is the
  value read so far. The result is the value and the unread rest, or \<open>None\<close> for a doubled
  or trailing underscore.
\<close>

fun scan_digits :: "string \<Rightarrow> bool \<Rightarrow> int \<Rightarrow> (int \<times> string) option" where
  "scan_digits [] us acc = (if us then None else Some (acc, []))"
| "scan_digits (c # cs) us acc =
     (if c = CHR ''_'' then (if us then None else scan_digits cs True acc)
      else if c = CHR ''0'' then scan_digits cs False (2 * acc)
      else if c = CHR ''1'' then scan_digits cs False (2 * acc + 1)
      else if us then None else Some (acc, c # cs))"

definition int_base2 :: "string \<Rightarrow> error + int" where
  "int_base2 s =
     (let s1 = dropWhile py_isspace s;
          neg = (case s1 of [] \<Rightarrow> False | c # _ \<Rightarrow> c = CHR ''-'');
          s2 = (case s1 of [] \<Rightarrow> s1
                | c # r \<Rightarrow> if c = CHR ''+'' \<or> c = CHR ''-'' then r else s1);
          s3 = (case s2 of
                  a # b # r \<Rightarrow>
                    if a = CHR ''0'' \<and> (b = CHR ''b'' \<or> b = CHR ''B'')
                    then (case r of [] \<Rightarrow> r | u # r' \<Rightarrow> if u = CHR ''_'' then r' else r)
                    else s2
                | _ \<Rightarrow> s2)
      in case s3 of
           [] \<Rightarrow> Inl invalid_literal
         | c # _ \<Rightarrow>
             if c \<noteq> CHR ''0'' \<and> c \<noteq> CHR ''1'' then Inl invalid_literal
             else (case scan_digits s3 False 0 of
                     None \<Rightarrow> Inl invalid_literal
                   | Some (v, rest) \<Rightarrow>
                       if dropWhile py_isspace rest = [] then Inr (if neg then - v else v)
                       else Inl invalid_literal))"

subsection \<open>The encoder\<close>

text \<open>
  \<^verbatim>\<open>
  def gamma_encode_number(n: int) -> str:
      if n <= 0:
          raise ValueError("Gamma encoding is only defined for positive integers")
      binary = bin(n)[2:]
      offset = binary[1:]
      length = len(binary) - 1
      prefix = "0" * length + "1"
      return prefix + offset
  \<close>
  The locals \<^verbatim>\<open>length\<close> and \<^verbatim>\<open>prefix\<close> are \<open>len\<close> and \<open>pre\<close> here. \<^verbatim>\<open>"0" * length\<close> is the
  empty string for a \<^verbatim>\<open>length\<close> below 1, which is what \<open>replicate (nat len)\<close> gives.
\<close>

definition gamma_encode_number :: "int \<Rightarrow> error + string" where
  "gamma_encode_number n =
     (if n \<le> 0 then Inl invalid_input
      else
        let binary = drop 2 (bin n);
            offset = drop 1 binary;
            len = int (length binary) - 1;
            pre = replicate (nat len) CHR ''0'' @ ''1''
        in Inr (pre @ offset))"

text \<open>
  \<^verbatim>\<open>
  def gamma_encode_list(nums: list[int]) -> str:
      return "".join(gamma_encode_number(n) for n in nums)
  \<close>
  \<^verbatim>\<open>join\<close> draws the codes from the generator in list order; the first call that raises
  ends the whole expression.
\<close>

fun gamma_encode_list :: "int list \<Rightarrow> error + string" where
  "gamma_encode_list [] = Inr ''''"
| "gamma_encode_list (n # nums) =
     (case gamma_encode_number n of
        Inl e \<Rightarrow> Inl e
      | Inr c \<Rightarrow> (case gamma_encode_list nums of
                   Inl e \<Rightarrow> Inl e
                 | Inr cs \<Rightarrow> Inr (c @ cs)))"

subsection \<open>The decoder\<close>

text \<open>
  The inner loop of \<^verbatim>\<open>gamma_decode\<close>, on the index \<open>i\<close> and the counter \<open>zeros\<close>:
  \<^verbatim>\<open>
  while i < len(stream) and stream[i] == "0":
      zeros += 1
      i += 1
  \<close>
\<close>

function scan_zeros :: "string \<Rightarrow> nat \<Rightarrow> nat \<Rightarrow> nat \<times> nat" where
  "scan_zeros stream i zeros =
     (if i < length stream \<and> stream ! i = CHR ''0''
      then scan_zeros stream (i + 1) (zeros + 1)
      else (i, zeros))"
  by pat_completeness auto
termination
  by (relation "measure (\<lambda>(stream, i, zeros). length stream - i)") auto

declare scan_zeros.simps [simp del]

text \<open>
  The outer loop, on the index \<open>i\<close> and the list \<open>decoded\<close>:
  \<^verbatim>\<open>
  while i < len(stream):
      zeros = 0
      (inner loop)
      if i >= len(stream):
          raise ValueError("Malformed gamma stream (prefix cutoff)")
      i += 1
      if i + zeros > len(stream):
          raise ValueError("Malformed gamma stream (offset cutoff)")
      offset = stream[i : i + zeros]
      i += zeros
      binary = "1" + offset
      decoded.append(int(binary, 2))
  return decoded
  \<close>
  \<open>j\<close> is the index after the inner loop; the slice \<^verbatim>\<open>stream[i : i + zeros]\<close> is
  \<open>take zeros (drop i stream)\<close>.
\<close>

function gamma_decode_loop :: "string \<Rightarrow> nat \<Rightarrow> int list \<Rightarrow> error + int list" where
  "gamma_decode_loop stream i decoded =
     (if i < length stream then
        (case scan_zeros stream i 0 of
           (j, zeros) \<Rightarrow>
             if j \<ge> length stream then Inl prefix_cutoff
             else if (j + 1) + zeros > length stream then Inl offset_cutoff
             else
               (case int_base2 (''1'' @ take zeros (drop (j + 1) stream)) of
                  Inl e \<Rightarrow> Inl e
                | Inr x \<Rightarrow> gamma_decode_loop stream ((j + 1) + zeros) (decoded @ [x])))
      else Inr decoded)"
  by pat_completeness auto
termination
proof (relation "measure (\<lambda>(stream, i, decoded). length stream - i)", goal_cases)
  case 1
  show ?case by simp
next
  case (2 stream i decoded j zeros x)
  have mono: "a \<le> b" if "scan_zeros s a z = (b, z')" for s a z b z'
    using that
  proof (induction s a z rule: scan_zeros.induct)
    case (1 s a z)
    show ?case
    proof (cases "a < length s \<and> s ! a = CHR ''0''")
      case True
      with "1.prems" have "scan_zeros s (a + 1) (z + 1) = (b, z')"
        by (simp add: scan_zeros.simps [of s a z])
      with "1.IH" True have "a + 1 \<le> b" by blast
      then show ?thesis by simp
    next
      case False
      with "1.prems" show ?thesis
        by (simp add: scan_zeros.simps [of s a z])
    qed
  qed
  from 2 have "scan_zeros stream i 0 = (j, zeros)" by simp
  then have "i \<le> j" by (rule mono)
  with 2 show ?case by simp
qed

declare gamma_decode_loop.simps [simp del]

definition gamma_decode :: "string \<Rightarrow> error + int list" where
  "gamma_decode stream = gamma_decode_loop stream 0 []"

subsection \<open>Auxiliary notions for the proofs\<close>

text \<open>
  A bit character, and the value of a string of bit characters read most significant
  first, starting from \<open>acc\<close>. They are not part of the program; the lemmas below relate
  \<open>bin_digits\<close> and \<open>scan_digits\<close> to them.
\<close>

definition is_bit :: "char \<Rightarrow> bool" where
  "is_bit c \<longleftrightarrow> c = CHR ''0'' \<or> c = CHR ''1''"

definition bits_value :: "int \<Rightarrow> string \<Rightarrow> int" where
  "bits_value acc bs = foldl (\<lambda>a c. 2 * a + (if c = CHR ''1'' then 1 else 0)) acc bs"

subsection \<open>The gamma code as the specification words it\<close>

text \<open>
  The specification describes the code of \<open>x\<close> without reference to \<^verbatim>\<open>bin\<close>: with
  \<open>N = floor(log2(x)) + 1\<close>, the code is \<open>N - 1\<close> zero bits, one \<^verbatim>\<open>1\<close> bit, and the
  low-order \<open>N - 1\<close> bits of \<open>x\<close>, most significant first. These definitions follow
  those words; the encoder above is compared with them.
\<close>

definition bit_char :: "bool \<Rightarrow> char" where
  "bit_char b = (if b then CHR ''1'' else CHR ''0'')"

definition spec_N :: "int \<Rightarrow> nat" where
  "spec_N x = nat \<lfloor>log 2 (real_of_int x)\<rfloor> + 1"

definition low_order_bits :: "nat \<Rightarrow> int \<Rightarrow> string" where
  "low_order_bits k x = map (\<lambda>i. bit_char (bit x i)) (rev [0..<k])"

definition gamma_code :: "int \<Rightarrow> string" where
  "gamma_code x =
     replicate (spec_N x - 1) CHR ''0'' @ ''1'' @ low_order_bits (spec_N x - 1) x"

section \<open>Lemmas\<close>

subsection \<open>Binary digits\<close>

lemma bits_value_simps [simp]:
  "bits_value acc [] = acc"
  "bits_value acc (c # cs) = bits_value (2 * acc + (if c = CHR ''1'' then 1 else 0)) cs"
  "bits_value acc (bs @ cs) = bits_value (bits_value acc bs) cs"
  by (simp_all add: bits_value_def)

lemma bits_value_ge: "1 \<le> acc \<Longrightarrow> acc \<le> bits_value acc bs"
proof (induction bs arbitrary: acc)
  case Nil
  show ?case by simp
next
  case (Cons c cs)
  have "1 \<le> 2 * acc + (if c = CHR ''1'' then 1 else 0)" using Cons.prems by simp
  from Cons.IH [OF this] Cons.prems show ?case by (auto split: if_splits)
qed

lemma bin_digits_small: "n < 2 \<Longrightarrow> bin_digits n = [if n = 1 then CHR ''1'' else CHR ''0'']"
  by (subst bin_digits.simps) simp

lemma bin_digits_step:
  "2 \<le> n \<Longrightarrow> bin_digits n = bin_digits (n div 2) @ [if n mod 2 = 1 then CHR ''1'' else CHR ''0'']"
  by (subst bin_digits.simps) simp

lemma bin_digits_bits: "\<forall>c \<in> set (bin_digits n). is_bit c"
proof (induction n rule: bin_digits.induct)
  case (1 n)
  show ?case
  proof (cases "n < 2")
    case True
    then show ?thesis by (simp add: bin_digits_small is_bit_def)
  next
    case False
    with "1.IH" show ?thesis by (simp add: bin_digits_step is_bit_def)
  qed
qed

lemma bin_digits_hd: "1 \<le> n \<Longrightarrow> \<exists>bs. bin_digits n = CHR ''1'' # bs"
proof (induction n rule: bin_digits.induct)
  case (1 n)
  show ?case
  proof (cases "n < 2")
    case True
    with "1.prems" have "n = 1" by simp
    then show ?thesis by (simp add: bin_digits_small)
  next
    case False
    then have "1 \<le> n div 2" by simp
    with "1.IH" False obtain bs where "bin_digits (n div 2) = CHR ''1'' # bs" by auto
    with False show ?thesis by (simp add: bin_digits_step)
  qed
qed

lemma bits_value_bin_digits: "0 \<le> n \<Longrightarrow> bits_value 0 (bin_digits n) = n"
proof (induction n rule: bin_digits.induct)
  case (1 n)
  show ?case
  proof (cases "n < 2")
    case True
    with "1.prems" have "n = 0 \<or> n = 1" by auto
    then show ?thesis by (auto simp: bin_digits_small)
  next
    case False
    then have "0 \<le> n div 2" by simp
    with "1.IH" False have "bits_value 0 (bin_digits (n div 2)) = n div 2" by simp
    with False show ?thesis by (simp add: bin_digits_step) presburger
  qed
qed

lemma bin_digits_bits_value:
  "\<forall>c \<in> set bs. is_bit c \<Longrightarrow> bin_digits (bits_value 1 bs) = CHR ''1'' # bs"
proof (induction bs rule: rev_induct)
  case Nil
  show ?case by (simp add: bin_digits_small)
next
  case (snoc c bs)
  let ?v = "bits_value 1 bs"
  have v: "1 \<le> ?v" using bits_value_ge [of 1 bs] by simp
  from snoc have ih: "bin_digits ?v = CHR ''1'' # bs" by simp
  from snoc.prems have c: "c = CHR ''0'' \<or> c = CHR ''1''" by (simp add: is_bit_def)
  let ?w = "2 * ?v + (if c = CHR ''1'' then 1 else 0)"
  have w2: "2 \<le> ?w" using v by simp
  have d: "?w div 2 = ?v" by simp
  have m: "(if ?w mod 2 = 1 then CHR ''1'' else CHR ''0'') = c" using c by auto
  have "bin_digits ?w = bin_digits (?w div 2) @ [if ?w mod 2 = 1 then CHR ''1'' else CHR ''0'']"
    using w2 by (rule bin_digits_step)
  then have "bin_digits ?w = (CHR ''1'' # bs) @ [c]" by (simp only: d m ih)
  then show ?case by simp
qed

lemma length_bin_digits: "1 \<le> n \<Longrightarrow> length (bin_digits n) = floorlog 2 (nat n)"
proof (induction n rule: bin_digits.induct)
  case (1 n)
  show ?case
  proof (cases "n < 2")
    case True
    with "1.prems" have "n = 1" by simp
    then show ?thesis by (simp add: bin_digits_small compute_floorlog)
  next
    case False
    then have "1 \<le> n div 2" by simp
    with "1.IH" False have "length (bin_digits (n div 2)) = floorlog 2 (nat (n div 2))" by simp
    moreover have "nat (n div 2) = nat n div 2" by (simp add: nat_div_distrib)
    moreover have "floorlog 2 (nat n) = floorlog 2 (nat n div 2) + 1"
      using False by (subst compute_floorlog) simp
    ultimately show ?thesis using False by (simp add: bin_digits_step)
  qed
qed

lemma scan_digits_bits:
  "\<forall>c \<in> set bs. is_bit c \<Longrightarrow> scan_digits bs False acc = Some (bits_value acc bs, [])"
  by (induction bs arbitrary: acc) (auto simp: is_bit_def)


lemma gamma_encode_number_code:
  assumes "1 \<le> n"
  shows "gamma_encode_number n =
           Inr (replicate (length (bin_digits n) - 1) CHR ''0'' @ bin_digits n)"
proof -
  from assms obtain bs where bs: "bin_digits n = CHR ''1'' # bs"
    using bin_digits_hd by blast
  from assms have "\<not> n \<le> 0" "\<not> n < 0" by simp_all
  then show ?thesis
    by (simp add: gamma_encode_number_def bin_def bs Let_def)
qed

lemma gamma_encode_list_append:
  "gamma_encode_list (xs @ ys) =
     (case gamma_encode_list xs of
        Inl e \<Rightarrow> Inl e
      | Inr s \<Rightarrow> (case gamma_encode_list ys of Inl e \<Rightarrow> Inl e | Inr t \<Rightarrow> Inr (s @ t)))"
  by (induction xs) (auto split: sum.splits)

lemma py_isspace_one: "\<not> py_isspace CHR ''1''"
  by (simp add: py_isspace_def)

lemma int_base2_one:
  "int_base2 (CHR ''1'' # off) =
     (case scan_digits off False 1 of
        None \<Rightarrow> Inl invalid_literal
      | Some (v, rest) \<Rightarrow>
          if dropWhile py_isspace rest = [] then Inr v else Inl invalid_literal)"
proof -
  have h: "\<And>cs. scan_digits (CHR ''1'' # cs) False 0 = scan_digits cs False 1"
    by simp
  show ?thesis
    by (cases off)
      (simp_all add: int_base2_def py_isspace_one h del: scan_digits.simps
         split: option.splits)
qed

lemma scan_digits_ge:
  "scan_digits cs us acc = Some (v, rest) \<Longrightarrow> 1 \<le> acc \<Longrightarrow> 1 \<le> v"
proof (induction cs arbitrary: us acc)
  case Nil
  then show ?case by (simp split: if_splits)
next
  case (Cons c cs)
  from Cons.prems(2) have "1 \<le> 2 * acc" "1 \<le> 2 * acc + 1" by simp_all
  with Cons show ?case by (auto split: if_splits)
qed

lemma int_base2_one_ge: "int_base2 (CHR ''1'' # off) = Inr v \<Longrightarrow> 1 \<le> v"
  by (auto simp: int_base2_one split: option.splits if_splits dest: scan_digits_ge)

lemma int_base2_one_bits:
  "\<forall>c \<in> set bs. is_bit c \<Longrightarrow> int_base2 (CHR ''1'' # bs) = Inr (bits_value 1 bs)"
  by (simp add: int_base2_one scan_digits_bits)

lemma takeWhile_zeros_replicate:
  "takeWhile (\<lambda>c. c = CHR ''0'') (replicate k CHR ''0'' @ c # cs) =
     (if c = CHR ''0'' then replicate k CHR ''0'' @ takeWhile (\<lambda>c. c = CHR ''0'') (c # cs)
      else replicate k CHR ''0'')"
  by (induction k) simp_all

lemma scan_zeros_takeWhile:
  "i \<le> length stream \<Longrightarrow>
   scan_zeros stream i z =
     (i + length (takeWhile (\<lambda>c. c = CHR ''0'') (drop i stream)),
      z + length (takeWhile (\<lambda>c. c = CHR ''0'') (drop i stream)))"
proof (induction stream i z rule: scan_zeros.induct)
  case (1 stream i zeros)
  show ?case
  proof (cases "i < length stream \<and> stream ! i = CHR ''0''")
    case True
    then have d: "drop i stream = CHR ''0'' # drop (Suc i) stream"
      by (metis Cons_nth_drop_Suc)
    from True have "i + 1 \<le> length stream" by simp
    with "1.IH" True have
      "scan_zeros stream (i + 1) (zeros + 1) =
         (i + 1 + length (takeWhile (\<lambda>c. c = CHR ''0'') (drop (i + 1) stream)),
          zeros + 1 + length (takeWhile (\<lambda>c. c = CHR ''0'') (drop (i + 1) stream)))"
      by blast
    with True d show ?thesis
      by (simp add: scan_zeros.simps [of stream i zeros])
  next
    case False
    have "takeWhile (\<lambda>c. c = CHR ''0'') (drop i stream) = []"
    proof (cases "i < length stream")
      case True
      with False have "stream ! i \<noteq> CHR ''0''" by simp
      moreover from True have "drop i stream = stream ! i # drop (Suc i) stream"
        by (simp add: Cons_nth_drop_Suc)
      ultimately show ?thesis by simp
    next
      case False
      then show ?thesis by simp
    qed
    moreover have "scan_zeros stream i zeros = (i, zeros)"
      by (subst scan_zeros.simps) (simp only: False if_False)
    ultimately show ?thesis by simp
  qed
qed

lemma gamma_decode_loop_end:
  "length stream \<le> i \<Longrightarrow> gamma_decode_loop stream i acc = Inr acc"
  by (simp add: gamma_decode_loop.simps [of stream i acc])

lemma gamma_decode_loop_step:
  assumes d: "drop i stream = replicate k CHR ''0'' @ c # off @ rest"
    and c: "c \<noteq> CHR ''0''" and k: "length off = k"
  shows "gamma_decode_loop stream i acc =
           (case int_base2 (CHR ''1'' # off) of
              Inl e \<Rightarrow> Inl e
            | Inr x \<Rightarrow> gamma_decode_loop stream (i + 2 * k + 1) (acc @ [x]))"
proof -
  from d have "length (drop i stream) = 2 * k + 1 + length rest"
    using k by simp
  then have len: "length stream = i + 2 * k + 1 + length rest" by simp
  then have i: "i < length stream" by simp
  have tw: "takeWhile (\<lambda>c. c = CHR ''0'') (drop i stream) = replicate k CHR ''0''"
    using c by (simp add: d takeWhile_zeros_replicate)
  have sz: "scan_zeros stream i 0 = (i + k, k)"
    using i by (simp add: scan_zeros_takeWhile tw)
  have "drop (i + k + 1) stream = drop (k + 1) (drop i stream)"
    by (simp add: add.commute add.left_commute)
  also have "\<dots> = off @ rest" by (simp add: d)
  finally have off: "take k (drop (i + k + 1) stream) = off" using k by simp
  have idx: "i + k + 1 + k = i + 2 * k + 1" by simp
  have "gamma_decode_loop stream i acc =
          (case int_base2 (''1'' @ take k (drop (i + k + 1) stream)) of
             Inl e \<Rightarrow> Inl e
           | Inr x \<Rightarrow> gamma_decode_loop stream (i + k + 1 + k) (acc @ [x]))"
    using i len by (subst gamma_decode_loop.simps) (simp add: sz)
  then show ?thesis by (simp only: off idx append_Cons append_Nil)
qed

lemma gamma_decode_loop_success:
  assumes i: "i < length stream" and ok: "gamma_decode_loop stream i acc = Inr xs"
  shows "\<exists>k c off rest x.
           drop i stream = replicate k CHR ''0'' @ c # off @ rest \<and> c \<noteq> CHR ''0'' \<and>
           length off = k \<and> int_base2 (CHR ''1'' # off) = Inr x \<and>
           gamma_decode_loop stream (i + 2 * k + 1) (acc @ [x]) = Inr xs"
proof -
  let ?p = "\<lambda>c. c = CHR ''0''"
  let ?s = "drop i stream"
  let ?k = "length (takeWhile ?p ?s)"
  have sz: "scan_zeros stream i 0 = (i + ?k, ?k)"
    using i by (simp add: scan_zeros_takeWhile)
  from ok i have nopre: "i + ?k < length stream"
    by (simp add: gamma_decode_loop.simps [of stream i acc] sz split: if_splits)
  from ok i have nooff: "i + ?k + 1 + ?k \<le> length stream"
    by (simp add: gamma_decode_loop.simps [of stream i acc] sz split: if_splits)
  have rep: "takeWhile ?p ?s = replicate ?k CHR ''0''"
    by (rule sym, rule replicate_length_same) (auto dest: set_takeWhileD)
  have split: "?s = replicate ?k CHR ''0'' @ dropWhile ?p ?s"
    using takeWhile_dropWhile_id [of ?p ?s] rep by simp
  have "?k + length (dropWhile ?p ?s) = length stream - i"
    by (metis length_append length_drop takeWhile_dropWhile_id)
  with nooff have dl: "?k + 1 \<le> length (dropWhile ?p ?s)" by linarith
  then obtain c r where r: "dropWhile ?p ?s = c # r"
    by (cases "dropWhile ?p ?s") auto
  then have c: "c \<noteq> CHR ''0''"
    using hd_dropWhile [of ?p ?s] by auto
  from dl r have kr: "?k \<le> length r" by simp
  let ?off = "take ?k r"
  have d: "?s = replicate ?k CHR ''0'' @ c # ?off @ drop ?k r"
    using split r by simp
  have lo: "length ?off = ?k" using kr by simp
  from gamma_decode_loop_step [OF d c lo, of acc] ok
  obtain x where "int_base2 (CHR ''1'' # ?off) = Inr x"
    and "gamma_decode_loop stream (i + 2 * ?k + 1) (acc @ [x]) = Inr xs"
    by (auto split: sum.splits)
  with d c lo show ?thesis by blast
qed


lemma gamma_encode_number_shape:
  assumes "gamma_encode_number n = Inr code"
  shows "\<exists>off. 1 \<le> n \<and> (\<forall>b \<in> set off. is_bit b) \<and> bin_digits n = CHR ''1'' # off \<and>
           code = replicate (length off) CHR ''0'' @ CHR ''1'' # off \<and> bits_value 1 off = n"
proof -
  from assms have n: "1 \<le> n"
    by (cases "n \<le> 0") (simp_all add: gamma_encode_number_def)
  then obtain off where off: "bin_digits n = CHR ''1'' # off"
    using bin_digits_hd by blast
  from bin_digits_bits [of n] off have bits: "\<forall>b \<in> set off. is_bit b" by simp
  from n have "bits_value 0 (bin_digits n) = n" by (simp add: bits_value_bin_digits)
  then have v: "bits_value 1 off = n" by (simp add: off)
  from assms gamma_encode_number_code [OF n]
  have "code = replicate (length off) CHR ''0'' @ CHR ''1'' # off" by (simp add: off)
  with n bits off v show ?thesis by blast
qed

lemma gamma_encode_list_ok: "\<forall>x \<in> set L. 1 \<le> x \<Longrightarrow> \<exists>s. gamma_encode_list L = Inr s"
proof (induction L)
  case Nil
  show ?case by simp
next
  case (Cons x L)
  then obtain s where "gamma_encode_list L = Inr s" by auto
  moreover from Cons.prems have "1 \<le> x" by simp
  ultimately show ?case by (simp add: gamma_encode_number_code)
qed

lemma gamma_decode_loop_codes:
  "gamma_encode_list L = Inr s \<Longrightarrow>
   gamma_decode_loop (pre @ s @ rest) (length pre) acc =
     gamma_decode_loop (pre @ s @ rest) (length pre + length s) (acc @ L)"
proof (induction L arbitrary: s pre acc)
  case Nil
  then show ?case by simp
next
  case (Cons x L)
  from Cons.prems obtain c cs where c: "gamma_encode_number x = Inr c"
    and cs: "gamma_encode_list L = Inr cs" and s: "s = c @ cs"
    by (auto split: sum.splits)
  from gamma_encode_number_shape [OF c] obtain off
    where bits: "\<forall>b \<in> set off. is_bit b"
      and code: "c = replicate (length off) CHR ''0'' @ CHR ''1'' # off"
      and v: "bits_value 1 off = x"
    by blast
  let ?stream = "pre @ s @ rest"
  have d: "drop (length pre) ?stream =
             replicate (length off) CHR ''0'' @ CHR ''1'' # off @ (cs @ rest)"
    by (simp add: s code)
  have lc: "length c = 2 * length off + 1" by (simp add: code)
  have "gamma_decode_loop ?stream (length pre) acc =
          gamma_decode_loop ?stream (length pre + 2 * length off + 1) (acc @ [x])"
    using gamma_decode_loop_step [OF d, of acc] by (simp add: int_base2_one_bits bits v)
  also have "\<dots> = gamma_decode_loop ((pre @ c) @ cs @ rest) (length (pre @ c)) (acc @ [x])"
    by (simp add: s lc)
  also have "\<dots> = gamma_decode_loop ((pre @ c) @ cs @ rest)
                      (length (pre @ c) + length cs) ((acc @ [x]) @ L)"
    by (rule Cons.IH [OF cs])
  also have "\<dots> = gamma_decode_loop ?stream (length pre + length s) (acc @ x # L)"
    by (simp add: s add.assoc)
  finally show ?case .
qed

lemma gamma_decode_encoded: "gamma_encode_list L = Inr s \<Longrightarrow> gamma_decode s = Inr L"
  using gamma_decode_loop_codes [of L s "[]" "[]" "[]"]
  by (simp add: gamma_decode_def gamma_decode_loop_end)

lemma gamma_decode_loop_positive:
  "gamma_decode_loop stream i acc = Inr xs \<Longrightarrow> \<forall>v \<in> set acc. 1 \<le> v \<Longrightarrow>
   \<forall>v \<in> set xs. 1 \<le> v"
proof (induction "length stream - i" arbitrary: i acc rule: less_induct)
  case less
  show ?case
  proof (cases "i < length stream")
    case False
    with less.prems show ?thesis by (simp add: gamma_decode_loop_end)
  next
    case True
    from gamma_decode_loop_success [OF True less.prems(1)] obtain k off x
      where x: "int_base2 (CHR ''1'' # off) = Inr x"
        and next_ok: "gamma_decode_loop stream (i + 2 * k + 1) (acc @ [x]) = Inr xs"
      by blast
    from x have "1 \<le> x" by (rule int_base2_one_ge)
    with less.prems(2) have acc: "\<forall>v \<in> set (acc @ [x]). 1 \<le> v" by simp
    from True have "length stream - (i + 2 * k + 1) < length stream - i" by simp
    from less.hyps [OF this next_ok acc] show ?thesis .
  qed
qed

lemma gamma_decode_loop_reencode:
  "gamma_decode_loop stream i acc = Inr xs \<Longrightarrow> \<forall>c \<in> set stream. is_bit c \<Longrightarrow>
   i \<le> length stream \<Longrightarrow> gamma_encode_list acc = Inr (take i stream) \<Longrightarrow>
   gamma_encode_list xs = Inr stream"
proof (induction "length stream - i" arbitrary: i acc rule: less_induct)
  case less
  show ?case
  proof (cases "i < length stream")
    case False
    with less.prems show ?thesis by (simp add: gamma_decode_loop_end)
  next
    case True
    from gamma_decode_loop_success [OF True less.prems(1)] obtain k c off rest x
      where d: "drop i stream = replicate k CHR ''0'' @ c # off @ rest"
        and c: "c \<noteq> CHR ''0''" and k: "length off = k"
        and x: "int_base2 (CHR ''1'' # off) = Inr x"
        and next_ok: "gamma_decode_loop stream (i + 2 * k + 1) (acc @ [x]) = Inr xs"
      by blast
    have sub: "set (drop i stream) \<subseteq> set stream" by (rule set_drop_subset)
    from sub d less.prems(2) have "is_bit c" by auto
    with c have c1: "c = CHR ''1''" by (simp add: is_bit_def)
    from sub d less.prems(2) have bits: "\<forall>b \<in> set off. is_bit b" by auto
    from x bits have xv: "x = bits_value 1 off" by (simp add: int_base2_one_bits)
    have x1: "1 \<le> x" using bits_value_ge [of 1 off] xv by simp
    have bd: "bin_digits x = CHR ''1'' # off"
      using bits by (simp add: xv bin_digits_bits_value)
    have code: "gamma_encode_number x = Inr (replicate k CHR ''0'' @ CHR ''1'' # off)"
      using gamma_encode_number_code [OF x1] by (simp add: bd k)
    from d have "length (drop i stream) = 2 * k + 1 + length rest" using k by simp
    then have le: "i + 2 * k + 1 \<le> length stream" by simp
    have "take (i + 2 * k + 1) stream = take i stream @ take (2 * k + 1) (drop i stream)"
      using take_add [of i "2 * k + 1" stream] by (simp only: add.assoc)
    also have "take (2 * k + 1) (drop i stream) = replicate k CHR ''0'' @ CHR ''1'' # off"
      using k by (simp add: d c1)
    finally have tk: "take (i + 2 * k + 1) stream =
                        take i stream @ replicate k CHR ''0'' @ CHR ''1'' # off" .
    have "gamma_encode_list (acc @ [x]) =
            Inr (take i stream @ replicate k CHR ''0'' @ CHR ''1'' # off)"
      by (simp add: gamma_encode_list_append less.prems(4) code)
    then have enc: "gamma_encode_list (acc @ [x]) = Inr (take (i + 2 * k + 1) stream)"
      by (simp only: tk)
    from True have "length stream - (i + 2 * k + 1) < length stream - i" by simp
    from less.hyps [OF this next_ok less.prems(2) le enc] show ?thesis .
  qed
qed

lemma gamma_decode_reencode:
  "gamma_decode s = Inr xs \<Longrightarrow> \<forall>c \<in> set s. is_bit c \<Longrightarrow> gamma_encode_list xs = Inr s"
  using gamma_decode_loop_reencode [of s 0 "[]" xs] by (simp add: gamma_decode_def)

subsection \<open>The encoder against the specification's wording\<close>

lemma length_bin_digits_spec_N: "1 \<le> n \<Longrightarrow> length (bin_digits n) = spec_N n"
  by (simp add: length_bin_digits floorlog_def spec_N_def)

lemma low_order_bits_Suc:
  "low_order_bits (Suc k) n = low_order_bits k (n div 2) @ [bit_char (odd n)]"
proof -
  have "[0..<Suc k] = 0 # map Suc [0..<k]"
    by (simp add: upt_conv_Cons map_Suc_upt del: upt_Suc)
  then have "rev [0..<Suc k] = map Suc (rev [0..<k]) @ [0]"
    by (simp add: rev_map del: upt_Suc)
  then show ?thesis
    by (simp add: low_order_bits_def bit_Suc bit_0 comp_def del: upt_Suc)
qed

lemma bin_digits_low_order_bits:
  "0 \<le> n \<Longrightarrow> bin_digits n = low_order_bits (length (bin_digits n)) n"
proof (induction n rule: bin_digits.induct)
  case (1 n)
  show ?case
  proof (cases "n < 2")
    case True
    with "1.prems" have "n = 0 \<or> n = 1" by auto
    then show ?thesis
      by (auto simp: bin_digits_small low_order_bits_def bit_char_def)
  next
    case False
    then have "0 \<le> n div 2" by simp
    with "1.IH" False
    have ih: "bin_digits (n div 2) = low_order_bits (length (bin_digits (n div 2))) (n div 2)"
      by simp
    have last: "(if n mod 2 = 1 then CHR ''1'' else CHR ''0'') = bit_char (odd n)"
      by (simp add: bit_char_def odd_iff_mod_2_eq_one)
    have "bin_digits n = bin_digits (n div 2) @ [bit_char (odd n)]"
      using False by (simp add: bin_digits_step last)
    also have "\<dots> = low_order_bits (Suc (length (bin_digits (n div 2)))) n"
      using ih by (simp add: low_order_bits_Suc)
    also have "Suc (length (bin_digits (n div 2))) = length (bin_digits n)"
      using False by (simp add: bin_digits_step)
    finally show ?thesis .
  qed
qed

lemma low_order_bits_top:
  "low_order_bits (Suc k) n = bit_char (bit n k) # low_order_bits k n"
  by (simp add: low_order_bits_def)

lemma gamma_encode_number_gamma_code:
  assumes "1 \<le> x"
  shows "gamma_encode_number x = Inr (gamma_code x)"
proof -
  from assms obtain off where off: "bin_digits x = CHR ''1'' # off"
    using bin_digits_hd by blast
  have N: "spec_N x = Suc (length off)"
    using length_bin_digits_spec_N [OF assms] by (simp add: off)
  from assms have "0 \<le> x" by simp
  then have "bin_digits x = low_order_bits (length (bin_digits x)) x"
    by (rule bin_digits_low_order_bits)
  then have "CHR ''1'' # off = low_order_bits (Suc (length off)) x"
    unfolding off by simp
  then have "CHR ''1'' # off = bit_char (bit x (length off)) # low_order_bits (length off) x"
    by (simp only: low_order_bits_top)
  then have "low_order_bits (length off) x = off"
    by (rule list.inject [THEN iffD1, THEN conjunct2, symmetric])
  then have "gamma_code x = replicate (length off) CHR ''0'' @ CHR ''1'' # off"
    by (simp add: gamma_code_def N)
  then show ?thesis
    using gamma_encode_number_code [OF assms] by (simp add: off)
qed

lemma gamma_encode_number_length:
  assumes "1 \<le> x"
  shows "\<exists>s. gamma_encode_number x = Inr s \<and> length s = 2 * nat \<lfloor>log 2 (real_of_int x)\<rfloor> + 1"
proof -
  from length_bin_digits_spec_N [OF assms]
  have "length (bin_digits x) = nat \<lfloor>log 2 (real_of_int x)\<rfloor> + 1"
    by (simp add: spec_N_def)
  then show ?thesis
    using gamma_encode_number_code [OF assms] by simp
qed

lemma gamma_encode_list_first_invalid:
  "\<forall>p \<in> set ps. 1 \<le> p \<Longrightarrow> y \<le> 0 \<Longrightarrow>
   gamma_encode_list (ps @ y # rest) = Inl invalid_input"
proof (induction ps)
  case Nil
  then show ?case by (simp add: gamma_encode_number_def)
next
  case (Cons p ps)
  then have "1 \<le> p" by simp
  with Cons show ?case by (simp add: gamma_encode_number_code)
qed

subsection \<open>Codes and prefixes\<close>

lemma zeros_one_inject:
  assumes "replicate a CHR ''0'' @ CHR ''1'' # u = replicate b CHR ''0'' @ CHR ''1'' # v"
  shows "a = b \<and> u = v"
proof -
  have "takeWhile (\<lambda>c. c = CHR ''0'') (replicate a CHR ''0'' @ CHR ''1'' # u) =
        takeWhile (\<lambda>c. c = CHR ''0'') (replicate b CHR ''0'' @ CHR ''1'' # v)"
    by (simp only: assms)
  then have "replicate a CHR ''0'' = replicate b CHR ''0''"
    by (simp add: takeWhile_zeros_replicate)
  then have ab: "a = b" by (metis length_replicate)
  with assms show ?thesis by simp
qed

lemma codes_not_prefix:
  assumes cx: "gamma_encode_number x = Inr cx" and cy: "gamma_encode_number y = Inr cy"
    and pre: "prefix cx cy"
  shows "x = y"
proof -
  from gamma_encode_number_shape [OF cx] obtain ox
    where sx: "cx = replicate (length ox) CHR ''0'' @ CHR ''1'' # ox"
      and vx: "bits_value 1 ox = x"
    by blast
  from gamma_encode_number_shape [OF cy] obtain oy
    where sy: "cy = replicate (length oy) CHR ''0'' @ CHR ''1'' # oy"
      and vy: "bits_value 1 oy = y"
    by blast
  from pre obtain r where r: "cy = cx @ r" by (auto simp: prefix_def)
  have "replicate (length oy) CHR ''0'' @ CHR ''1'' # oy =
        replicate (length ox) CHR ''0'' @ CHR ''1'' # (ox @ r)"
    using r by (simp add: sx [symmetric] sy [symmetric])
  from zeros_one_inject [OF this] have len: "length oy = length ox" and app: "oy = ox @ r"
    by blast+
  from arg_cong [OF app, of length] len have "r = []" by simp
  with app have "oy = ox" by simp
  with vx vy show ?thesis by simp
qed

subsection \<open>The decoder on streams that agree from an index on\<close>

lemma gamma_decode_loop_unfold:
  assumes "i < length stream"
  shows "gamma_decode_loop stream i acc =
           (let k = length (takeWhile (\<lambda>c. c = CHR ''0'') (drop i stream)) in
            if length stream \<le> i + k then Inl prefix_cutoff
            else if length stream < i + k + 1 + k then Inl offset_cutoff
            else (case int_base2 (''1'' @ take k (drop (i + k + 1) stream)) of
                    Inl e \<Rightarrow> Inl e
                  | Inr x \<Rightarrow> gamma_decode_loop stream (i + k + 1 + k) (acc @ [x])))"
  using assms
  by (subst gamma_decode_loop.simps) (simp add: scan_zeros_takeWhile Let_def)

lemma gamma_decode_loop_suffix:
  "drop i s = drop i t \<Longrightarrow> length s = length t \<Longrightarrow>
   gamma_decode_loop s i acc = gamma_decode_loop t i acc"
proof (induction "length s - i" arbitrary: i acc rule: less_induct)
  case less
  show ?case
  proof (cases "i < length s")
    case False
    with less.prems show ?thesis by (simp add: gamma_decode_loop_end)
  next
    case True
    with less.prems have it: "i < length t" by simp
    let ?k = "length (takeWhile (\<lambda>c. c = CHR ''0'') (drop i s))"
    have dd: "drop (i + n) s = drop (i + n) t" for n
      using arg_cong [OF less.prems(1), of "drop n"] by (simp only: drop_drop add.commute)
    have d1: "drop (i + ?k + 1) s = drop (i + ?k + 1) t"
      using dd [of "?k + 1"] by (simp only: add.assoc)
    have d2: "drop (i + ?k + 1 + ?k) s = drop (i + ?k + 1 + ?k) t"
      using dd [of "?k + 1 + ?k"] by (simp only: add.assoc)
    have rec: "gamma_decode_loop s (i + ?k + 1 + ?k) (acc @ [x]) =
               gamma_decode_loop t (i + ?k + 1 + ?k) (acc @ [x])" for x
    proof -
      from True have "length s - (i + ?k + 1 + ?k) < length s - i" by simp
      from less.hyps [OF this d2 less.prems(2)] show ?thesis .
    qed
    have "gamma_decode_loop s i acc =
            (if length s \<le> i + ?k then Inl prefix_cutoff
             else if length s < i + ?k + 1 + ?k then Inl offset_cutoff
             else (case int_base2 (''1'' @ take ?k (drop (i + ?k + 1) s)) of
                     Inl e \<Rightarrow> Inl e
                   | Inr x \<Rightarrow> gamma_decode_loop s (i + ?k + 1 + ?k) (acc @ [x])))"
      using gamma_decode_loop_unfold [OF True, of acc] by (simp only: Let_def)
    also have "\<dots> =
            (if length t \<le> i + ?k then Inl prefix_cutoff
             else if length t < i + ?k + 1 + ?k then Inl offset_cutoff
             else (case int_base2 (''1'' @ take ?k (drop (i + ?k + 1) t)) of
                     Inl e \<Rightarrow> Inl e
                   | Inr x \<Rightarrow> gamma_decode_loop t (i + ?k + 1 + ?k) (acc @ [x])))"
      by (simp only: d1 rec less.prems(2))
    also have "\<dots> = gamma_decode_loop t i acc"
      using gamma_decode_loop_unfold [OF it, of acc]
      by (simp only: Let_def less.prems(1))
    finally show ?thesis .
  qed
qed

lemma gamma_decode_loop_terminator:
  assumes c: "c \<noteq> CHR ''0''"
  shows "gamma_decode_loop (pre @ replicate k CHR ''0'' @ c # rest) (length pre) acc =
         gamma_decode_loop (pre @ replicate k CHR ''0'' @ CHR ''1'' # rest) (length pre) acc"
proof (cases "k \<le> length rest")
  case True
  let ?s = "\<lambda>c. pre @ replicate k CHR ''0'' @ c # rest"
  have step: "gamma_decode_loop (?s d) (length pre) acc =
                (case int_base2 (CHR ''1'' # take k rest) of
                   Inl e \<Rightarrow> Inl e
                 | Inr x \<Rightarrow> gamma_decode_loop (?s d) (length pre + 2 * k + 1) (acc @ [x]))"
    if "d \<noteq> CHR ''0''" for d
  proof -
    have "drop (length pre) (?s d) = replicate k CHR ''0'' @ d # take k rest @ drop k rest"
      by simp
    from gamma_decode_loop_step [OF this that] True show ?thesis by simp
  qed
  have suffix: "gamma_decode_loop (?s c) (length pre + 2 * k + 1) (acc @ [x]) =
                gamma_decode_loop (?s CHR ''1'') (length pre + 2 * k + 1) (acc @ [x])" for x
    by (rule gamma_decode_loop_suffix) simp_all
  show ?thesis
    by (simp only: step [OF c] step [of "CHR ''1''", simplified] suffix)
next
  case False
  let ?s = "\<lambda>c. pre @ replicate k CHR ''0'' @ c # rest"
  have cut: "gamma_decode_loop (?s d) (length pre) acc = Inl offset_cutoff"
    if "d \<noteq> CHR ''0''" for d
  proof -
    have i: "length pre < length (?s d)" by simp
    have tw: "takeWhile (\<lambda>c. c = CHR ''0'') (replicate k CHR ''0'' @ d # rest) =
                replicate k CHR ''0''"
      using that by (simp add: takeWhile_zeros_replicate)
    show ?thesis
      using False by (simp add: gamma_decode_loop_unfold [OF i] tw Let_def)
  qed
  show ?thesis by (simp add: cut c)
qed

section \<open>The claims\<close>

text \<open>
  Claim C1 (round trip). For every list \<open>L\<close> of positive integers, encoding the list
  succeeds and decoding the result gives \<open>L\<close> back; for every positive integer \<open>x\<close>,
  encoding it succeeds and decoding the code gives \<open>[x]\<close>.
\<close>

theorem round_trip:
  "((\<forall>x \<in> set L. 1 \<le> x) \<longrightarrow>
      (\<exists>s. gamma_encode_list L = Inr s \<and> gamma_decode s = Inr L)) \<and>
   (1 \<le> x \<longrightarrow> (\<exists>s. gamma_encode_number x = Inr s \<and> gamma_decode s = Inr [x]))"
proof (intro conjI impI)
  assume "\<forall>x \<in> set L. 1 \<le> x"
  then obtain s where "gamma_encode_list L = Inr s"
    using gamma_encode_list_ok by blast
  then show "\<exists>s. gamma_encode_list L = Inr s \<and> gamma_decode s = Inr L"
    using gamma_decode_encoded by blast
next
  assume x: "1 \<le> x"
  then obtain s where s: "gamma_encode_number x = Inr s"
    by (simp add: gamma_encode_number_code)
  then have "gamma_encode_list [x] = Inr s" by simp
  then have "gamma_decode s = Inr [x]" by (rule gamma_decode_encoded)
  with s show "\<exists>s. gamma_encode_number x = Inr s \<and> gamma_decode s = Inr [x]" by blast
qed

theorem round_trip_witness:
  "list_all (\<lambda>x. 1 \<le> x) [1, 3, 5, 10 :: int] \<and>
   (\<exists>s. gamma_encode_list [1, 3, 5, 10] = Inr s \<and> gamma_decode s = Inr [1, 3, 5, 10]) \<and>
   (1 :: int) \<le> 5 \<and> (\<exists>s. gamma_encode_number 5 = Inr s \<and> gamma_decode s = Inr [5])"
  using round_trip [of "[1, 3, 5, 10]" 5] by simp

text \<open>
  Claim C2 (the code of a number). For every integer \<open>x \<ge> 1\<close>, \<open>gamma_encode_number x\<close> is
  the gamma code of \<open>x\<close> as the specification words it: \<open>N - 1\<close> zero bits, one \<^verbatim>\<open>1\<close> bit,
  then the low-order \<open>N - 1\<close> bits of \<open>x\<close>, where \<open>N = floor(log2(x)) + 1\<close>. For \<open>x = 1\<close>,
  \<open>N\<close> is 1 and the code is the single bit \<^verbatim>\<open>1\<close>.
\<close>

theorem gamma_encode_number_spec:
  "(1 \<le> x \<longrightarrow> gamma_encode_number x = Inr (gamma_code x)) \<and>
   spec_N 1 = 1 \<and> gamma_encode_number 1 = Inr ''1''"
proof (intro conjI impI)
  assume "1 \<le> x"
  then show "gamma_encode_number x = Inr (gamma_code x)"
    by (rule gamma_encode_number_gamma_code)
next
  show "spec_N 1 = 1" by (simp add: spec_N_def)
next
  show "gamma_encode_number 1 = Inr ''1''" by code_simp
qed

theorem gamma_encode_number_spec_witness:
  "(1 :: int) \<le> 10 \<and> gamma_encode_number 10 = Inr (gamma_code 10) \<and>
   gamma_code 10 = ''0001010''"
proof -
  have c: "gamma_encode_number 10 = Inr ''0001010''" by code_simp
  from gamma_encode_number_spec [of 10] have "gamma_encode_number 10 = Inr (gamma_code 10)"
    by simp
  with c show ?thesis by simp
qed

text \<open>
  Claim C3 (encoder errors). \<open>gamma_encode_number x\<close> fails with the invalid-input error
  exactly when \<open>x \<le> 0\<close>, in particular at 0 and at -5, and succeeds otherwise.
  \<open>gamma_encode_list\<close> fails with that error as soon as the list has a non-positive
  element: the elements \<open>ps\<close> before the first one are positive, and whatever follows it
  does not matter; the result is the error alone, with no partial output. On a list of
  positive integers only it succeeds.
\<close>

theorem encoder_errors:
  "(x \<le> 0 \<longrightarrow> gamma_encode_number x = Inl invalid_input) \<and>
   (1 \<le> x \<longrightarrow> (\<exists>s. gamma_encode_number x = Inr s)) \<and>
   gamma_encode_number 0 = Inl invalid_input \<and>
   gamma_encode_number (- 5) = Inl invalid_input \<and>
   ((\<forall>p \<in> set ps. 1 \<le> p) \<and> y \<le> 0 \<longrightarrow>
      gamma_encode_list (ps @ y # rest) = Inl invalid_input) \<and>
   ((\<exists>y \<in> set L. y \<le> 0) \<longrightarrow> gamma_encode_list L = Inl invalid_input) \<and>
   ((\<forall>y \<in> set L. 1 \<le> y) \<longrightarrow> (\<exists>s. gamma_encode_list L = Inr s))"
proof (intro conjI impI)
  show "gamma_encode_number 0 = Inl invalid_input"
    by (simp add: gamma_encode_number_def)
  show "gamma_encode_number (- 5) = Inl invalid_input"
    by (simp add: gamma_encode_number_def)
next
  assume "x \<le> 0"
  then show "gamma_encode_number x = Inl invalid_input"
    by (simp add: gamma_encode_number_def)
next
  assume "1 \<le> x"
  then show "\<exists>s. gamma_encode_number x = Inr s"
    by (simp add: gamma_encode_number_code)
next
  assume "(\<forall>p \<in> set ps. 1 \<le> p) \<and> y \<le> 0"
  then show "gamma_encode_list (ps @ y # rest) = Inl invalid_input"
    by (simp add: gamma_encode_list_first_invalid)
next
  assume "\<exists>y \<in> set L. y \<le> 0"
  then obtain us v vs where L: "L = us @ v # vs" and v: "v \<le> 0"
    and us: "\<forall>u \<in> set us. \<not> u \<le> 0"
    using split_list_first_prop [of L "\<lambda>y. y \<le> 0"] by blast
  from us have "\<forall>u \<in> set us. 1 \<le> u" by auto
  with v show "gamma_encode_list L = Inl invalid_input"
    unfolding L by (simp add: gamma_encode_list_first_invalid)
next
  assume "\<forall>y \<in> set L. 1 \<le> y"
  then show "\<exists>s. gamma_encode_list L = Inr s" by (rule gamma_encode_list_ok)
qed

theorem encoder_errors_witness:
  "(- 5 :: int) \<le> 0 \<and> gamma_encode_number (- 5) = Inl invalid_input \<and>
   (1 :: int) \<le> 3 \<and> (\<exists>s. gamma_encode_number 3 = Inr s) \<and>
   list_all (\<lambda>p. 1 \<le> p) [1, 3 :: int] \<and> (0 :: int) \<le> 0 \<and>
   gamma_encode_list ([1, 3] @ 0 # [7, - 2]) = Inl invalid_input \<and>
   list_ex (\<lambda>y. y \<le> 0) [1, 0, 3 :: int] \<and> gamma_encode_list [1, 0, 3] = Inl invalid_input \<and>
   list_all (\<lambda>y. 1 \<le> y) [1, 3, 5, 10 :: int] \<and> (\<exists>s. gamma_encode_list [1, 3, 5, 10] = Inr s)"
  using encoder_errors [of "- 5" "[1, 3]" 0 "[7, - 2]" "[1, 0, 3]"]
    encoder_errors [of 3 "[]" 0 "[]" "[1, 3, 5, 10]"]
  by simp

text \<open>
  Claim C4 (decoder vectors). Decoding \<^verbatim>\<open>000\<close> fails with the prefix-cutoff error,
  decoding \<^verbatim>\<open>0010\<close> fails with the offset-cutoff error, and decoding the empty string
  succeeds with the empty list.
\<close>

theorem decoder_vectors:
  "gamma_decode ''000'' = Inl prefix_cutoff \<and>
   gamma_decode ''0010'' = Inl offset_cutoff \<and>
   gamma_decode '''' = Inr []"
  by code_simp

text \<open>
  Claim C5 (prefix-freeness). For all positive integers \<open>x\<close> and \<open>y\<close> with \<open>x \<noteq> y\<close>, both
  have a code and the code of \<open>x\<close> is not a prefix of the code of \<open>y\<close>. This holds for all
  positive integers, so in particular over the range 1 to 256.
\<close>

theorem prefix_free:
  "1 \<le> x \<Longrightarrow> 1 \<le> y \<Longrightarrow> x \<noteq> y \<Longrightarrow>
   \<exists>cx cy. gamma_encode_number x = Inr cx \<and> gamma_encode_number y = Inr cy \<and>
           \<not> prefix cx cy"
proof -
  assume x: "1 \<le> x" and y: "1 \<le> y" and ne: "x \<noteq> y"
  from x obtain cx where cx: "gamma_encode_number x = Inr cx"
    by (simp add: gamma_encode_number_code)
  from y obtain cy where cy: "gamma_encode_number y = Inr cy"
    by (simp add: gamma_encode_number_code)
  from codes_not_prefix [OF cx cy] ne have "\<not> prefix cx cy" by blast
  with cx cy show ?thesis by blast
qed

theorem prefix_free_witness:
  "(1 :: int) \<le> 2 \<and> (1 :: int) \<le> 5 \<and> (2 :: int) \<noteq> 5 \<and>
   (\<exists>cx cy. gamma_encode_number 2 = Inr cx \<and> gamma_encode_number 5 = Inr cy \<and>
            \<not> prefix cx cy)"
  using prefix_free [of 2 5] by simp

text \<open>
  Claim C6 (known vectors). The codes of 5, 10 and 1 are \<^verbatim>\<open>00101\<close>, \<^verbatim>\<open>0001010\<close> and \<^verbatim>\<open>1\<close>;
  the encoding of the list 1, 3, 5, 10 is the concatenation of the codes of its elements,
  and decoding that concatenation gives the list back.
\<close>

theorem known_vectors:
  "gamma_encode_number 5 = Inr ''00101'' \<and>
   gamma_encode_number 10 = Inr ''0001010'' \<and>
   gamma_encode_number 1 = Inr ''1'' \<and>
   gamma_encode_list [1, 3, 5, 10] = Inr (''1'' @ ''011'' @ ''00101'' @ ''0001010'') \<and>
   gamma_decode (''1'' @ ''011'' @ ''00101'' @ ''0001010'') = Inr [1, 3, 5, 10]"
  by code_simp

text \<open>
  Claim C7 (code length). For every positive integer \<open>x\<close>, the code of \<open>x\<close> has
  \<open>2 * floor(log2(x)) + 1\<close> characters, which is \<open>2 * N - 1\<close> for \<open>N = floor(log2(x)) + 1\<close>. The
  lengths at 1, 2, 3, 4, 7, 8, 15, 16, 1023 and 1024 are 1, 3, 3, 5, 5, 7, 7, 9, 19 and 21.
\<close>

theorem code_length:
  "(1 \<le> x \<longrightarrow>
      (\<exists>s. gamma_encode_number x = Inr s \<and>
           length s = 2 * nat \<lfloor>log 2 (real_of_int x)\<rfloor> + 1 \<and>
           length s = 2 * spec_N x - 1)) \<and>
   map (\<lambda>x. map_sum id length (gamma_encode_number x)) [1, 2, 3, 4, 7, 8, 15, 16, 1023, 1024] =
     map Inr [1, 3, 3, 5, 5, 7, 7, 9, 19, 21]"
proof (intro conjI impI)
  assume "1 \<le> x"
  from gamma_encode_number_length [OF this] show
    "\<exists>s. gamma_encode_number x = Inr s \<and>
         length s = 2 * nat \<lfloor>log 2 (real_of_int x)\<rfloor> + 1 \<and> length s = 2 * spec_N x - 1"
    by (auto simp: spec_N_def)
next
  show "map (\<lambda>x. map_sum id length (gamma_encode_number x))
          [1, 2, 3, 4, 7, 8, 15, 16, 1023, 1024] =
        map Inr [1, 3, 3, 5, 5, 7, 7, 9, 19, 21]"
    by code_simp
qed

theorem code_length_witness:
  "(1 :: int) \<le> 1024 \<and>
   (\<exists>s. gamma_encode_number 1024 = Inr s \<and> length s = 2 * nat \<lfloor>log 2 (real_of_int 1024)\<rfloor> + 1 \<and>
        length s = 2 * spec_N 1024 - 1 \<and> length s = 21)"
proof -
  have c: "gamma_encode_number 1024 = Inr ''000000000010000000000''" by code_simp
  from code_length [of 1024] c show ?thesis by simp
qed

text \<open>
  Claim C8 (reverse round trip). For every string \<open>s\<close> over the characters \<^verbatim>\<open>0\<close> and \<^verbatim>\<open>1\<close>
  that \<open>gamma_decode\<close> accepts, encoding the decoded list gives \<open>s\<close> back. Hence two such
  strings with the same decoded list are equal.
\<close>

theorem reverse_round_trip:
  "(set s \<subseteq> {CHR ''0'', CHR ''1''} \<and> gamma_decode s = Inr xs \<longrightarrow>
      gamma_encode_list xs = Inr s) \<and>
   (set s \<subseteq> {CHR ''0'', CHR ''1''} \<and> set t \<subseteq> {CHR ''0'', CHR ''1''} \<and>
    gamma_decode s = Inr xs \<and> gamma_decode t = Inr xs \<longrightarrow> s = t)"
proof -
  have re: "gamma_encode_list ys = Inr u"
    if "set u \<subseteq> {CHR ''0'', CHR ''1''}" and "gamma_decode u = Inr ys" for u ys
  proof -
    from that(1) have "\<forall>c \<in> set u. is_bit c" by (auto simp: is_bit_def)
    with that(2) show ?thesis by (rule gamma_decode_reencode)
  qed
  show ?thesis
  proof (intro conjI impI)
    assume "set s \<subseteq> {CHR ''0'', CHR ''1''} \<and> gamma_decode s = Inr xs"
    then show "gamma_encode_list xs = Inr s" using re by blast
  next
    assume a: "set s \<subseteq> {CHR ''0'', CHR ''1''} \<and> set t \<subseteq> {CHR ''0'', CHR ''1''} \<and>
      gamma_decode s = Inr xs \<and> gamma_decode t = Inr xs"
    then have "gamma_encode_list xs = Inr s" and "gamma_encode_list xs = Inr t"
      using re by blast+
    then show "s = t" by simp
  qed
qed

theorem reverse_round_trip_witness:
  "gamma_decode ''1011001010001010'' = Inr [1, 3, 5, 10] \<and>
   gamma_encode_list [1, 3, 5, 10] = Inr ''1011001010001010''"
proof -
  have h: "gamma_decode ''1011001010001010'' = Inr [1, 3, 5, 10]" by code_simp
  from reverse_round_trip [of "''1011001010001010''" "[1, 3, 5, 10]" "''1011001010001010''"] h
  show ?thesis by simp
qed

text \<open>
  Claim C9 (decoder output domain). Whenever \<open>gamma_decode\<close> succeeds, on any string at
  all, every integer of the returned list is at least 1.
\<close>

theorem decoded_positive: "gamma_decode stream = Inr xs \<Longrightarrow> \<forall>v \<in> set xs. 1 \<le> v"
  using gamma_decode_loop_positive [of stream 0 "[]" xs] by (simp add: gamma_decode_def)

theorem decoded_positive_witness:
  "gamma_decode ''001011'' = Inr [5, 1] \<and> list_all (\<lambda>v. 1 \<le> v) [5, 1 :: int]"
proof -
  have h: "gamma_decode ''001011'' = Inr [5, 1]" by code_simp
  from decoded_positive [OF h] h show ?thesis by (simp add: list_all_iff)
qed

text \<open>
  Claim C10 (no character validation). The decoder tests characters against \<^verbatim>\<open>0\<close> only, so
  any other character ends a prefix as \<^verbatim>\<open>1\<close> does: after the codes of a list \<open>L\<close>, a stream
  that goes on with \<open>k\<close> zeros and a character \<open>c\<close> other than \<^verbatim>\<open>0\<close> decodes as the stream
  with \<^verbatim>\<open>1\<close> in the place of \<open>c\<close>. So a one-character string other than \<^verbatim>\<open>0\<close>, such as
  \<^verbatim>\<open>2\<close>, decodes to \<open>[1]\<close> with no error.
\<close>

theorem decoder_no_validation:
  "(gamma_encode_list L = Inr s \<and> c \<noteq> CHR ''0'' \<longrightarrow>
      gamma_decode (s @ replicate k CHR ''0'' @ c # rest) =
      gamma_decode (s @ replicate k CHR ''0'' @ CHR ''1'' # rest)) \<and>
   (c \<noteq> CHR ''0'' \<longrightarrow> gamma_decode [c] = Inr [1]) \<and>
   gamma_decode ''2'' = Inr [1]"
proof (intro conjI impI)
  assume a: "gamma_encode_list L = Inr s \<and> c \<noteq> CHR ''0''"
  have eq: "gamma_decode (s @ u) = gamma_decode_loop (s @ u) (length s) L" for u
    using a gamma_decode_loop_codes [of L s "[]" u "[]"] by (simp add: gamma_decode_def)
  from a have c: "c \<noteq> CHR ''0''" by simp
  show "gamma_decode (s @ replicate k CHR ''0'' @ c # rest) =
        gamma_decode (s @ replicate k CHR ''0'' @ CHR ''1'' # rest)"
    unfolding eq by (rule gamma_decode_loop_terminator [OF c])
next
  assume c: "c \<noteq> CHR ''0''"
  have "gamma_decode_loop ([] @ replicate 0 CHR ''0'' @ c # []) (length ([] :: string)) [] =
        gamma_decode_loop ([] @ replicate 0 CHR ''0'' @ CHR ''1'' # []) (length ([] :: string)) []"
    using c by (rule gamma_decode_loop_terminator)
  moreover have "gamma_decode ''1'' = Inr [1]" by code_simp
  ultimately show "gamma_decode [c] = Inr [1]" by (simp add: gamma_decode_def)
next
  show "gamma_decode ''2'' = Inr [1]" by code_simp
qed

theorem decoder_no_validation_witness:
  "gamma_encode_list [3] = Inr ''011'' \<and> CHR ''x'' \<noteq> CHR ''0'' \<and>
   gamma_decode (''011'' @ replicate 1 CHR ''0'' @ CHR ''x'' # ''1'') = Inr [3, 3] \<and>
   gamma_decode [CHR ''x''] = Inr [1]"
proof -
  have e: "gamma_encode_list [3] = Inr ''011''" by code_simp
  have d: "gamma_decode (''011'' @ replicate 1 CHR ''0'' @ CHR ''1'' # ''1'') = Inr [3, 3]"
    by code_simp
  from decoder_no_validation [of "[3]" "''011''" "CHR ''x''" 1 "''1''"] e d
  show ?thesis by simp
qed

end
